theory Spec2Isabelle
  imports Main
begin

section \<open>tsh: a tiny shell with job control (tsh.c)\<close>

text \<open>
  The embedding follows the shell process of \<^verbatim>\<open>tsh.c\<close>. Its global variables (the job
  table \<^verbatim>\<open>jobs\<close>, \<^verbatim>\<open>nextjid\<close>, \<^verbatim>\<open>verbose\<close>) are the fields of a record that every
  function takes and returns. Two further fields record what the process does to the
  outside: \<open>out\<close> is the text written to standard output, in order, and \<open>sigs\<close> is the
  list of \<^verbatim>\<open>kill\<close> calls made, each with its pid argument and its signal.

  C \<^verbatim>\<open>int\<close> and \<^verbatim>\<open>pid_t\<close> values are HOL integers. The only arithmetic of the program
  on them is \<^verbatim>\<open>nextjid++\<close>, \<^verbatim>\<open>maxjid(jobs)+1\<close>, \<^verbatim>\<open>nextjid-1\<close>, the unary minus of
  \<^verbatim>\<open>kill(-pid, sig)\<close> and the digits read by \<^verbatim>\<open>atoi\<close>; signed overflow is undefined in C,
  so the model agrees with the program wherever the program's behaviour is defined.
\<close>

subsection \<open>Constants and data\<close>

definition MAXJOBS :: int where "MAXJOBS = 16"

definition UNDEF :: int where "UNDEF = 0"
definition FG :: int where "FG = 1"
definition BG :: int where "BG = 2"
definition ST :: int where "ST = 3"

record job_t =
  pid :: int
  jid :: int
  state :: int
  cmdline :: string

datatype signal = SIGINT | SIGTSTP

record shell =
  jobs :: "job_t list"
  nextjid :: int
  verbose :: int
  out :: string
  sigs :: "(int \<times> signal) list"

text \<open>How the process can end other than by returning: \<^verbatim>\<open>exit(n)\<close>, the dereference of
  a null pointer, a store outside an array, and the branch of \<^verbatim>\<open>eval\<close> that runs in
  the forked child (the embedding follows the shell, not its children).\<close>

datatype error = Exit int | NullDeref | OutOfBounds | Child

subsection \<open>Formatted output\<close>

definition digit :: "nat \<Rightarrow> char" where
  "digit n = ''0123456789'' ! n"

fun dec_nat :: "nat \<Rightarrow> string" where
  "dec_nat n = (if n < 10 then [digit n] else dec_nat (n div 10) @ [digit (n mod 10)])"

declare dec_nat.simps [simp del]

text \<open>\<^verbatim>\<open>%d\<close> of \<^verbatim>\<open>printf\<close>.\<close>

definition dec :: "int \<Rightarrow> string" where
  "dec i = (if i < 0 then CHR ''-'' # dec_nat (nat (- i)) else dec_nat (nat i))"

definition printf :: "string \<Rightarrow> shell \<Rightarrow> shell" where
  "printf txt s = s\<lparr>out := out s @ txt\<rparr>"

subsection \<open>The job list helpers\<close>

definition clearjob :: "job_t \<Rightarrow> job_t" where
  "clearjob j = j\<lparr>pid := 0, jid := 0, state := UNDEF, cmdline := []\<rparr>"

text \<open>\<^verbatim>\<open>initjobs\<close> clears each of the \<^verbatim>\<open>MAXJOBS\<close> entries of the table.\<close>

definition initjobs :: "job_t list \<Rightarrow> job_t list" where
  "initjobs js = map clearjob js"

text \<open>The loops \<^verbatim>\<open>for (i = 0; i < MAXJOBS; i++) if (c(jobs[i])) ... return\<close> leave at the
  first entry that meets the condition: \<open>first_idx\<close> is that index.\<close>

fun first_idx :: "(job_t \<Rightarrow> bool) \<Rightarrow> job_t list \<Rightarrow> nat option" where
  "first_idx c [] = None"
| "first_idx c (j # js) = (if c j then Some 0 else map_option Suc (first_idx c js))"

fun maxjid_loop :: "job_t list \<Rightarrow> int \<Rightarrow> int" where
  "maxjid_loop [] mx = mx"
| "maxjid_loop (j # js) mx = maxjid_loop js (if jid j > mx then jid j else mx)"

definition maxjid :: "job_t list \<Rightarrow> int" where
  "maxjid js = maxjid_loop js 0"

text \<open>\<^verbatim>\<open>addjob\<close> returns its \<^verbatim>\<open>int\<close> result with the new state.\<close>

definition addjob :: "shell \<Rightarrow> int \<Rightarrow> int \<Rightarrow> string \<Rightarrow> int \<times> shell" where
  "addjob s p st cl =
     (if p < 1 then (0, s)
      else case first_idx (\<lambda>j. pid j = 0) (jobs s) of
        Some i \<Rightarrow>
          (let j = (jobs s ! i)\<lparr>pid := p, state := st, jid := nextjid s, cmdline := cl\<rparr>;
               n = nextjid s + 1;
               s1 = s\<lparr>jobs := (jobs s)[i := j], nextjid := (if n > MAXJOBS then 1 else n)\<rparr>;
               s2 = (if verbose s \<noteq> 0
                     then printf (''Added job ['' @ dec (jid j) @ ''] '' @ dec (pid j) @ '' ''
                                   @ cmdline j @ [CHR 0x0A]) s1
                     else s1)
           in (1, s2))
      | None \<Rightarrow> (0, printf (''Tried to create too many jobs'' @ [CHR 0x0A]) s))"

definition deletejob :: "shell \<Rightarrow> int \<Rightarrow> int \<times> shell" where
  "deletejob s p =
     (if p < 1 then (0, s)
      else case first_idx (\<lambda>j. pid j = p) (jobs s) of
        Some i \<Rightarrow>
          (let js = (jobs s)[i := clearjob (jobs s ! i)]
           in (1, s\<lparr>jobs := js, nextjid := maxjid js + 1\<rparr>))
      | None \<Rightarrow> (0, s))"

definition fgpid :: "job_t list \<Rightarrow> int" where
  "fgpid js = (case first_idx (\<lambda>j. state j = FG) js of Some i \<Rightarrow> pid (js ! i) | None \<Rightarrow> 0)"

text \<open>\<^verbatim>\<open>getjobpid\<close> and \<^verbatim>\<open>getjobjid\<close> return a pointer into the table or \<^verbatim>\<open>NULL\<close>:
  here the index of the entry or \<open>None\<close>.\<close>

definition getjobpid :: "job_t list \<Rightarrow> int \<Rightarrow> nat option" where
  "getjobpid js p = (if p < 1 then None else first_idx (\<lambda>j. pid j = p) js)"

definition getjobjid :: "job_t list \<Rightarrow> int \<Rightarrow> nat option" where
  "getjobjid js i = (if i < 1 then None else first_idx (\<lambda>j. jid j = i) js)"

definition pid2jid :: "shell \<Rightarrow> int \<Rightarrow> int" where
  "pid2jid s p =
     (if p < 1 then 0
      else case first_idx (\<lambda>j. pid j = p) (jobs s) of Some i \<Rightarrow> jid (jobs s ! i) | None \<Rightarrow> 0)"

fun listjobs_loop :: "nat \<Rightarrow> job_t list \<Rightarrow> shell \<Rightarrow> shell" where
  "listjobs_loop i [] s = s"
| "listjobs_loop i (j # js) s =
     listjobs_loop (Suc i) js
       (if pid j \<noteq> 0
        then printf (cmdline j)
               (printf (if state j = BG then ''Running ''
                        else if state j = FG then ''Foreground ''
                        else if state j = ST then ''Stopped ''
                        else ''listjobs: Internal error: job['' @ dec (int i) @ ''].state=''
                               @ dec (state j) @ '' '')
                  (printf (''['' @ dec (jid j) @ ''] ('' @ dec (pid j) @ '') '') s))
        else s)"

definition listjobs :: "shell \<Rightarrow> shell" where
  "listjobs s = listjobs_loop 0 (jobs s) s"

text \<open>The state in which \<^verbatim>\<open>main\<close> enters its loop: \<^verbatim>\<open>initjobs\<close> has cleared the sixteen
  entries, \<^verbatim>\<open>nextjid\<close> is 1, nothing has been written. \<open>v\<close> is the \<^verbatim>\<open>-v\<close> flag.\<close>

definition init_shell :: "int \<Rightarrow> shell" where
  "init_shell v =
     \<lparr>jobs = initjobs (replicate (nat MAXJOBS) \<lparr>pid = 0, jid = 0, state = 0, cmdline = []\<rparr>),
      nextjid = 1, verbose = v, out = [], sigs = []\<rparr>"

subsection \<open>Library functions of C\<close>

definition isdigit :: "char \<Rightarrow> bool" where
  "isdigit c = (48 \<le> (of_char c :: nat) \<and> (of_char c :: nat) \<le> 57)"

definition isspace :: "char \<Rightarrow> bool" where
  "isspace c = ((of_char c :: nat) = 32 \<or> (9 \<le> (of_char c :: nat) \<and> (of_char c :: nat) \<le> 13))"

fun atoi_digits :: "string \<Rightarrow> int \<Rightarrow> int" where
  "atoi_digits [] acc = acc"
| "atoi_digits (c # cs) acc =
     (if isdigit c then atoi_digits cs (acc * 10 + (of_char c - 48)) else acc)"

text \<open>\<^verbatim>\<open>atoi\<close> of the C library: white space, an optional sign, then the digits up to the
  first character that is not one.\<close>

definition atoi :: "string \<Rightarrow> int" where
  "atoi str =
     (case dropWhile isspace str of
        [] \<Rightarrow> 0
      | c # cs \<Rightarrow> if c = CHR ''-'' then - atoi_digits cs 0
                  else if c = CHR ''+'' then atoi_digits cs 0
                  else atoi_digits (c # cs) 0)"

text \<open>\<open>s[0]\<close> of a C string: the terminating NUL when the string is empty.\<close>

definition char0 :: "string \<Rightarrow> char" where
  "char0 str = (case str of [] \<Rightarrow> CHR 0x00 | c # _ \<Rightarrow> c)"

subsection \<open>parseline\<close>

definition skip_spaces :: "string \<Rightarrow> string" where
  "skip_spaces buf = dropWhile (\<lambda>c. c = CHR '' '') buf"

text \<open>One round of the loop that builds \<^verbatim>\<open>argv\<close>: a leading quote selects the closing
  quote as delimiter, otherwise the next space; \<^verbatim>\<open>strchr\<close> finding none ends the loop.\<close>

function build_argv :: "string \<Rightarrow> string list" where
  "build_argv buf =
     (let d = (if char0 buf = CHR 0x27 then CHR 0x27 else CHR '' '');
          b = (if char0 buf = CHR 0x27 then tl buf else buf)
      in if d \<in> set b
         then takeWhile (\<lambda>c. c \<noteq> d) b # build_argv (skip_spaces (tl (dropWhile (\<lambda>c. c \<noteq> d) b)))
         else [])"
  by pat_completeness auto
termination
proof (relation "measure length", goal_cases)
  case 1
  show ?case by simp
next
  case (2 buf d b)
  have "length (dropWhile (\<lambda>c. c \<noteq> d) b) \<le> length b"
    by (rule length_dropWhile_le)
  moreover have "dropWhile (\<lambda>c. c \<noteq> d) b \<noteq> []"
    using 2 by simp
  moreover have "length b \<le> length buf"
    using 2 by simp
  moreover have "length (skip_spaces (tl (dropWhile (\<lambda>c. c \<noteq> d) b)))
                   \<le> length (tl (dropWhile (\<lambda>c. c \<noteq> d) b))"
    unfolding skip_spaces_def by (rule length_dropWhile_le)
  ultimately show ?case
    by (cases "dropWhile (\<lambda>c. c \<noteq> d) b") auto
qed

declare build_argv.simps [simp del]

text \<open>\<^verbatim>\<open>parseline\<close> returns the argument vector and the background flag. The store
  \<^verbatim>\<open>buf[strlen(buf)-1] = ' '\<close> falls outside the buffer when the line is empty.\<close>

definition parseline :: "string \<Rightarrow> error + (string list \<times> bool)" where
  "parseline cl =
     (if cl = [] then Inl OutOfBounds
      else let argv = build_argv (skip_spaces (butlast cl @ '' ''))
           in if argv = [] then Inr ([], True)
              else if char0 (last argv) = CHR ''&'' then Inr (butlast argv, True)
              else Inr (argv, False))"

subsection \<open>The built-in commands\<close>

text \<open>
  The guard of \<^verbatim>\<open>do_bgfg\<close> reads
  \<^verbatim>\<open>!(isdigit(argv[1][0]) || strcmp(argv[1][0]) == 0)\<close>: \<^verbatim>\<open>strcmp\<close> is called with one
  argument, a character. C gives this call no meaning, so the value it yields on a
  character is the parameter \<open>strcmp1\<close> of the embedding.

  After the job is found, both branches of \<^verbatim>\<open>if (strcmp(argv[0], "bg") == 0)\<close> are empty.
  \<^verbatim>\<open>do_bgfg\<close> is only called by \<^verbatim>\<open>builtin_cmd\<close>, with \<^verbatim>\<open>argv[0]\<close> present. The
  jid is read by \<^verbatim>\<open>atoi(&argv[1][1])\<close>, here \<open>atoi (tl a)\<close>; for an empty argument that
  address lies behind the terminating NUL, where the embedding reads the empty string.
\<close>

fun do_bgfg :: "(char \<Rightarrow> int) \<Rightarrow> string list \<Rightarrow> shell \<Rightarrow> shell" where
  "do_bgfg strcmp1 [] s = s"
| "do_bgfg strcmp1 [name] s =
     printf (name @ '' command requires PID or %jobid argument'' @ [CHR 0x0A]) s"
| "do_bgfg strcmp1 (name # a # rest) s =
     (if \<not> (isdigit (char0 a) \<or> strcmp1 (char0 a) = 0)
      then printf (name @ '': argument must be a PID or %jobid'' @ [CHR 0x0A]) s
      else if isdigit (char0 a)
      then (case getjobpid (jobs s) (atoi a) of
              None \<Rightarrow> printf (''('' @ dec (atoi a) @ ''): No such process'' @ [CHR 0x0A]) s
            | Some i \<Rightarrow> (if name = ''bg'' then s else s))
      else (case getjobjid (jobs s) (atoi (tl a)) of
              None \<Rightarrow> printf (a @ '': No such job'' @ [CHR 0x0A]) s
            | Some i \<Rightarrow> (if name = ''bg'' then s else s)))"

text \<open>\<^verbatim>\<open>builtin_cmd\<close> is called with a non-empty argument vector.\<close>

definition builtin_cmd :: "(char \<Rightarrow> int) \<Rightarrow> string list \<Rightarrow> shell \<Rightarrow> error + (int \<times> shell)" where
  "builtin_cmd strcmp1 argv s =
     (if hd argv = ''quit'' \<or> hd argv = ''jobs'' \<or> hd argv = ''fg'' \<or> hd argv = ''bg''
      then (if hd argv = ''quit'' then Inl (Exit 0)
            else if hd argv = ''jobs'' then Inr (1, listjobs s)
            else Inr (1, do_bgfg strcmp1 argv s))
      else Inr (0, s))"

subsection \<open>eval\<close>

text \<open>
  \<open>forked\<close> is what \<^verbatim>\<open>fork()\<close> returns if \<^verbatim>\<open>eval\<close> calls it: negative on failure
  (\<^verbatim>\<open>Fork\<close> then exits with status 1), zero in the child, the child's pid in the shell.
  The last statement of the foreground branch is the call \<^verbatim>\<open>waitfg(chld_pid)\<close>, which
  blocks while signal handlers change the table: \<open>eval\<close> returns the state at that
  point together with \<open>Some chld_pid\<close>, the wait that remains to be done, and \<open>None\<close>
  when it returns without waiting. The three signals are blocked from before the
  \<^verbatim>\<open>fork\<close> until after \<^verbatim>\<open>addjob\<close>, so no handler runs in between.
\<close>

definition eval :: "(char \<Rightarrow> int) \<Rightarrow> string \<Rightarrow> int \<Rightarrow> shell \<Rightarrow> error + (shell \<times> int option)" where
  "eval strcmp1 cl forked s =
     (case parseline cl of
        Inl e \<Rightarrow> Inl e
      | Inr (argv, bg) \<Rightarrow>
          if argv = [] then Inr (s, None)
          else (case builtin_cmd strcmp1 argv s of
                  Inl e \<Rightarrow> Inl e
                | Inr (r, s1) \<Rightarrow>
                    if r \<noteq> 0 then Inr (s1, None)
                    else if forked < 0 then Inl (Exit 1)
                    else if forked = 0 then Inl Child
                    else if bg
                    then (let s2 = snd (addjob s1 forked BG cl)
                          in Inr (printf (''['' @ dec (nextjid s2 - 1) @ ''] ('' @ dec forked
                                           @ '') '' @ cl) s2, None))
                    else Inr (snd (addjob s1 forked FG cl), Some forked)))"

subsection \<open>waitfg\<close>

text \<open>
  \<^verbatim>\<open>waitfg\<close> reads the table again after each \<^verbatim>\<open>sleep(1)\<close>, and the table changes only
  through the signal handlers that run meanwhile. \<open>intr n\<close> is the effect on the state
  of the handlers that run during the \<open>n\<close>-th sleep. \<open>job\<close> is the pointer held by the
  inner loop (\<open>None\<close> in the outer loop, before \<^verbatim>\<open>getjobpid\<close>), \<open>n\<close> counts the sleeps
  so far. The result is the number of sleeps and the state when \<^verbatim>\<open>waitfg\<close> returns;
  \<open>None\<close> means that it never returns.
\<close>

partial_function (option) waitfg_loop ::
  "(nat \<Rightarrow> shell \<Rightarrow> shell) \<Rightarrow> int \<Rightarrow> nat option \<Rightarrow> nat \<Rightarrow> shell \<Rightarrow> (nat \<times> shell) option" where
  "waitfg_loop intr p job n s =
     (case job of
        None \<Rightarrow>
          (case getjobpid (jobs s) p of
             None \<Rightarrow> Some (n, s)
           | Some i \<Rightarrow> waitfg_loop intr p (Some i) n s)
      | Some i \<Rightarrow>
          if pid (jobs s ! i) \<noteq> p then waitfg_loop intr p None n s
          else if state (jobs s ! i) \<noteq> FG then Some (n, s)
          else waitfg_loop intr p (Some i) (Suc n) (intr n s))"

declare waitfg_loop.simps [code]

definition waitfg :: "(nat \<Rightarrow> shell \<Rightarrow> shell) \<Rightarrow> int \<Rightarrow> shell \<Rightarrow> (nat \<times> shell) option" where
  "waitfg intr p s = waitfg_loop intr p None 0 s"

subsection \<open>Signal handlers\<close>

text \<open>What \<^verbatim>\<open>waitpid\<close> reports about a child, as the macros \<^verbatim>\<open>WIFSTOPPED\<close>/\<^verbatim>\<open>WSTOPSIG\<close>,
  \<^verbatim>\<open>WIFSIGNALED\<close>/\<^verbatim>\<open>WTERMSIG\<close> and \<^verbatim>\<open>WIFEXITED\<close> decode it.\<close>

datatype wstatus = Stopped int | Signaled int | Exited int | OtherStatus

text \<open>The handler calls \<^verbatim>\<open>waitpid(-1, &status, WUNTRACED | WNOHANG)\<close> until it returns
  less than 1. The argument list holds the successive results; at its end \<^verbatim>\<open>waitpid\<close>
  has nothing more to report.\<close>

fun sigchld_handler :: "(int \<times> wstatus) list \<Rightarrow> shell \<Rightarrow> error + shell" where
  "sigchld_handler [] s = Inr s"
| "sigchld_handler ((wp, w) # rest) s =
     (if wp < 1 then Inr s
      else case w of
        Stopped n \<Rightarrow>
          (let s1 = printf (''Job ['' @ dec (pid2jid s wp) @ ''] ('' @ dec wp
                            @ '') stopped by signal '' @ dec n @ [CHR 0x0A]) s
           in case getjobpid (jobs s1) wp of
                None \<Rightarrow> Inl NullDeref
              | Some i \<Rightarrow> sigchld_handler rest (s1\<lparr>jobs := (jobs s1)[i := (jobs s1 ! i)\<lparr>state := ST\<rparr>]\<rparr>))
      | Signaled n \<Rightarrow>
          sigchld_handler rest
            (snd (deletejob (printf (''Job ['' @ dec (pid2jid s wp) @ ''] ('' @ dec wp
                                      @ '') terminated by signal '' @ dec n @ [CHR 0x0A]) s) wp))
      | Exited n \<Rightarrow> sigchld_handler rest (snd (deletejob s wp))
      | OtherStatus \<Rightarrow> sigchld_handler rest s)"

text \<open>\<^verbatim>\<open>kill(-pid, sig)\<close> is recorded with its first argument as passed.\<close>

definition kill :: "int \<Rightarrow> signal \<Rightarrow> shell \<Rightarrow> shell" where
  "kill p sg s = s\<lparr>sigs := sigs s @ [(p, sg)]\<rparr>"

definition sigint_handler :: "shell \<Rightarrow> shell" where
  "sigint_handler s = (let int_pid = fgpid (jobs s) in kill (- int_pid) SIGINT s)"

definition sigtstp_handler :: "shell \<Rightarrow> shell" where
  "sigtstp_handler s = (let tstp_pid = fgpid (jobs s) in kill (- tstp_pid) SIGTSTP s)"

subsection \<open>The shell as a transition system\<close>

text \<open>
  The main flow of the shell is either between two command lines or inside
  \<^verbatim>\<open>waitfg(pid)\<close>; the signal handlers run at any moment of either. An event is one of:
  \<^item> \<open>Line cl forked\<close>: \<^verbatim>\<open>main\<close> has read the line \<open>cl\<close> and calls \<^verbatim>\<open>eval\<close>; \<open>forked\<close> is
    the result of \<^verbatim>\<open>fork\<close>. The kernel gives a new child a pid that no child still
    waited for has, and every registered job is such a child, so a result that is in the
    table is not a possible event;
  \<^item> \<open>Return\<close>: \<^verbatim>\<open>waitfg\<close> returns, no handler running in between;
  \<^item> \<open>Chld ws\<close>, \<open>Intr\<close>, \<open>Tstp\<close>: a signal is delivered and its handler runs, \<open>ws\<close> being
    what the calls of \<^verbatim>\<open>waitpid\<close> report.
  \<open>step\<close> is \<open>None\<close> when the event cannot happen in the state or the process ends in it.
\<close>

record sys =
  sh :: shell
  waiting :: "int option"

datatype event = Line string int | Return | Chld "(int \<times> wstatus) list" | Intr | Tstp

fun step :: "(char \<Rightarrow> int) \<Rightarrow> event \<Rightarrow> sys \<Rightarrow> sys option" where
  "step strcmp1 (Line cl forked) y =
     (if waiting y \<noteq> None \<or> forked \<in> set (map pid (jobs (sh y))) then None
      else case eval strcmp1 cl forked (sh y) of
             Inl e \<Rightarrow> None
           | Inr (s, w) \<Rightarrow> Some \<lparr>sh = s, waiting = w\<rparr>)"
| "step strcmp1 Return y =
     (case waiting y of
        None \<Rightarrow> None
      | Some p \<Rightarrow> map_option (\<lambda>(n, s). \<lparr>sh = s, waiting = None\<rparr>) (waitfg (\<lambda>n s. s) p (sh y)))"
| "step strcmp1 (Chld ws) y =
     (case sigchld_handler ws (sh y) of Inl e \<Rightarrow> None | Inr s \<Rightarrow> Some (y\<lparr>sh := s\<rparr>))"
| "step strcmp1 Intr y = Some (y\<lparr>sh := sigint_handler (sh y)\<rparr>)"
| "step strcmp1 Tstp y = Some (y\<lparr>sh := sigtstp_handler (sh y)\<rparr>)"

fun run :: "(char \<Rightarrow> int) \<Rightarrow> event list \<Rightarrow> sys \<Rightarrow> sys option" where
  "run strcmp1 [] y = Some y"
| "run strcmp1 (e # es) y =
     (case step strcmp1 e y of None \<Rightarrow> None | Some y' \<Rightarrow> run strcmp1 es y')"

definition init_sys :: "int \<Rightarrow> sys" where
  "init_sys v = \<lparr>sh = init_shell v, waiting = None\<rparr>"

subsection \<open>Notions used in the statements\<close>

text \<open>The active jobs of a table are its entries with a pid other than 0; the jobs in
  the foreground are the active jobs in state \<open>FG\<close>.\<close>

definition active :: "job_t list \<Rightarrow> job_t list" where
  "active js = filter (\<lambda>j. pid j \<noteq> 0) js"

definition fg_jobs :: "job_t list \<Rightarrow> job_t list" where
  "fg_jobs js = filter (\<lambda>j. state j = FG) (active js)"

text \<open>What every table the program builds satisfies: no pid is negative, and an empty
  entry has jid 0.\<close>

definition wf_jobs :: "job_t list \<Rightarrow> bool" where
  "wf_jobs js = list_all (\<lambda>j. 0 \<le> pid j \<and> (pid j = 0 \<longrightarrow> jid j = 0)) js"

text \<open>A run of consecutive \<^verbatim>\<open>addjob\<close> calls, each given as (pid, state, command line).
  For each call the result lists the value returned and the jid written to the entry
  that the call fills (\<^verbatim>\<open>jobs[i].jid = nextjid++\<close>, \<open>i\<close> the first empty entry).\<close>

definition added_jid :: "shell \<Rightarrow> shell \<Rightarrow> int" where
  "added_jid s s' =
     (case first_idx (\<lambda>j. pid j = 0) (jobs s) of Some i \<Rightarrow> jid (jobs s' ! i) | None \<Rightarrow> 0)"

fun add_seq :: "(int \<times> int \<times> string) list \<Rightarrow> shell \<Rightarrow> (int \<times> int) list \<times> shell" where
  "add_seq [] s = ([], s)"
| "add_seq ((p, st, cl) # rs) s =
     (let (r, s1) = addjob s p st cl; (res, s2) = add_seq rs s1
      in ((r, added_jid s s1) # res, s2))"

text \<open>\<open>n\<close> requests for background jobs with the pids 100, 101, ...\<close>

definition bg_requests :: "nat \<Rightarrow> (int \<times> int \<times> string) list" where
  "bg_requests n = map (\<lambda>k. (100 + int k, BG, ''/bin/sleep 9 &'' @ [CHR 0x0A])) [0..<n]"

text \<open>Modelled from the spec: the value of the guard's second test in \<^verbatim>\<open>do_bgfg\<close>, which
  the source writes as the one-argument call \<^verbatim>\<open>strcmp(argv[1][0])\<close>. The spec reads the
  test as "the argument starts with \<^verbatim>\<open>%\<close>"; \<open>percent\<close> is 0 on that character only.\<close>

definition percent :: "char \<Rightarrow> int" where
  "percent c = (if c = CHR ''%'' then 0 else 1)"

text \<open>The state after the first \<open>n\<close> sleeps of a wait that starts in \<open>s\<close>.\<close>

primrec after :: "(nat \<Rightarrow> shell \<Rightarrow> shell) \<Rightarrow> nat \<Rightarrow> shell \<Rightarrow> shell" where
  "after intr 0 s = s"
| "after intr (Suc n) s = intr n (after intr n s)"

text \<open>No job with pid \<open>p\<close> is in the table, or the job with pid \<open>p\<close> is not in state
  \<open>FG\<close>.\<close>

definition left_fg :: "job_t list \<Rightarrow> int \<Rightarrow> bool" where
  "left_fg js p = (\<not> list_ex (\<lambda>j. pid j = p \<and> state j = FG) (active js))"

definition distinct_pids :: "job_t list \<Rightarrow> bool" where
  "distinct_pids js = distinct (map pid (active js))"

text \<open>The tables of the program: \<^verbatim>\<open>MAXJOBS\<close> entries, well formed, and no pid held by
  two active entries.\<close>

definition registry :: "job_t list \<Rightarrow> bool" where
  "registry js = (length js = nat MAXJOBS \<and> wf_jobs js \<and> distinct_pids js)"

text \<open>Handlers during a wait: the child \<open>p\<close> exits during sleep number \<open>k\<close>, the SIGCHLD
  handler runs then, and nothing else happens.\<close>

definition exit_during :: "nat \<Rightarrow> int \<Rightarrow> nat \<Rightarrow> shell \<Rightarrow> shell" where
  "exit_during k p n x =
     (if n = k then (case sigchld_handler [(p, Exited 0)] x of Inr x' \<Rightarrow> x' | Inl e \<Rightarrow> x) else x)"

text \<open>Every foreground job of the table has its pid in \<open>A\<close>.\<close>

definition fg_in :: "int set \<Rightarrow> job_t list \<Rightarrow> bool" where
  "fg_in A js = (\<forall>j\<in>set js. pid j \<noteq> 0 \<and> state j = FG \<longrightarrow> pid j \<in> A)"

text \<open>The invariant of the shell: between two command lines no job is in the foreground;
  inside \<^verbatim>\<open>waitfg(p)\<close> only the job \<open>p\<close> can be.\<close>

definition shell_inv :: "sys \<Rightarrow> bool" where
  "shell_inv y = (registry (jobs (sh y))
            \<and> (case waiting y of None \<Rightarrow> fg_in {} (jobs (sh y))
                | Some p \<Rightarrow> 1 \<le> p \<and> fg_in {p} (jobs (sh y))))"

section \<open>Properties\<close>

subsection \<open>Searching the table\<close>

lemma first_idx_Some:
  "first_idx c js = Some i \<Longrightarrow> i < length js \<and> c (js ! i) \<and> (\<forall>k<i. \<not> c (js ! k))"
proof (induction js arbitrary: i)
  case Nil
  then show ?case by simp
next
  case (Cons j js)
  show ?case
  proof (cases "c j")
    case True
    with Cons.prems show ?thesis by simp
  next
    case False
    with Cons.prems obtain i' where i': "first_idx c js = Some i'" "i = Suc i'"
      by auto
    from Cons.IH [OF i'(1)] have ih: "i' < length js" "c (js ! i')" "\<forall>k<i'. \<not> c (js ! k)"
      by simp_all
    have "\<forall>k<Suc i'. \<not> c ((j # js) ! k)"
    proof (intro allI impI)
      fix k assume "k < Suc i'"
      then show "\<not> c ((j # js) ! k)"
        using False ih(3) by (cases k) simp_all
    qed
    with ih i'(2) show ?thesis by simp
  qed
qed

lemma first_idx_None: "(first_idx c js = None) = (\<forall>j\<in>set js. \<not> c j)"
  by (induction js) auto

lemma first_idx_unique:
  "i < length js \<Longrightarrow> c (js ! i) \<Longrightarrow> \<forall>k<i. \<not> c (js ! k) \<Longrightarrow> first_idx c js = Some i"
proof -
  assume a: "i < length js" "c (js ! i)" "\<forall>k<i. \<not> c (js ! k)"
  then have "js ! i \<in> set js" by simp
  with a(2) have "first_idx c js \<noteq> None" by (auto simp: first_idx_None)
  then obtain i' where i': "first_idx c js = Some i'" by auto
  from first_idx_Some [OF i'] have "i' < length js" "c (js ! i')" "\<forall>k<i'. \<not> c (js ! k)"
    by simp_all
  with a have "i' = i" by (meson nat_neq_iff)
  with i' show ?thesis by simp
qed



subsection \<open>bg and fg on a job that was found\<close>

text \<open>
  Claim C1. For a job that \<^verbatim>\<open>do_bgfg\<close> has found, \<^verbatim>\<open>bg\<close> is to send a continue signal to
  the job's process group, set the job's state to \<open>BG\<close> and print
  \<^verbatim>\<open>[jid] (pid) cmdline\<close>; \<^verbatim>\<open>fg\<close> is to send the signal, set the state to \<open>FG\<close> and wait.
  The program does none of it: with the stopped job 100 in the table, \<^verbatim>\<open>bg 100\<close> and
  \<^verbatim>\<open>fg 100\<close> find the job and return the state as it was (the job still stopped, nothing
  printed, no signal sent), and \<^verbatim>\<open>eval\<close> returns with no wait to be done.
\<close>

theorem do_bgfg_found_does_nothing:
  "getjobpid (jobs (snd (addjob (init_shell 0) 100 ST (''/bin/sleep 9'' @ [CHR 0x0A])))) 100 = Some 0
   \<and> state (jobs (snd (addjob (init_shell 0) 100 ST (''/bin/sleep 9'' @ [CHR 0x0A]))) ! 0) = ST
   \<and> eval percent (''bg 100'' @ [CHR 0x0A]) 0
        (snd (addjob (init_shell 0) 100 ST (''/bin/sleep 9'' @ [CHR 0x0A])))
       = Inr (snd (addjob (init_shell 0) 100 ST (''/bin/sleep 9'' @ [CHR 0x0A])), None)
   \<and> eval percent (''fg 100'' @ [CHR 0x0A]) 0
        (snd (addjob (init_shell 0) 100 ST (''/bin/sleep 9'' @ [CHR 0x0A])))
       = Inr (snd (addjob (init_shell 0) 100 ST (''/bin/sleep 9'' @ [CHR 0x0A])), None)"
  by code_simp

subsection \<open>The keyboard handlers without a foreground job\<close>

text \<open>
  Claim C2. When no job is in the foreground, the handlers of SIGINT and SIGTSTP are to
  forward nothing, and never to signal process group 0. In the initial state, where the
  table is empty, \<^verbatim>\<open>fgpid\<close> returns 0 and each handler calls \<^verbatim>\<open>kill(-0, sig)\<close>, that is
  \<^verbatim>\<open>kill(0, sig)\<close>: the signal goes to the process group of the shell itself.
\<close>

theorem keyboard_handlers_signal_group_0:
  "fg_jobs (jobs (init_shell 0)) = []
   \<and> sigs (sigint_handler (init_shell 0)) = [(0, SIGINT)]
   \<and> sigs (sigtstp_handler (init_shell 0)) = [(0, SIGTSTP)]"
  by code_simp

subsection \<open>The line printed for a background job\<close>

text \<open>
  Claim C4. After a background job is registered, the shell is to print
  \<^verbatim>\<open>[jid] (pid) cmdline\<close> with the jid that \<^verbatim>\<open>addjob\<close> gave the job. \<^verbatim>\<open>eval\<close> prints
  \<^verbatim>\<open>nextjid-1\<close>. With fifteen jobs in the table the sixteenth gets jid 16, \<^verbatim>\<open>addjob\<close>
  resets \<^verbatim>\<open>nextjid\<close> to 1, and the line printed starts with \<^verbatim>\<open>[0]\<close>.
\<close>

theorem eval_bg_prints_0_for_job_16:
  "(case eval percent (''/bin/ls &'' @ [CHR 0x0A]) 300
           (snd (add_seq (bg_requests 15) (init_shell 0))) of
      Inl e \<Rightarrow> False
    | Inr (s, w) \<Rightarrow>
        out s = ''[0] (300) /bin/ls &'' @ [CHR 0x0A] \<and> pid2jid s 300 = 16 \<and> w = None)"
  by code_simp

subsection \<open>addjob on a full table\<close>

lemma full_no_empty:
  assumes "length (active js) = length js"
  shows "first_idx (\<lambda>j. pid j = 0) js = None"
proof -
  have "\<forall>j\<in>set js. pid j \<noteq> 0"
  proof
    fix j assume "j \<in> set js"
    show "pid j \<noteq> 0"
    proof
      assume "pid j = 0"
      with \<open>j \<in> set js\<close> have "length (filter (\<lambda>j. pid j \<noteq> 0) js) < length js"
        by (intro length_filter_less) simp_all
      with assms show False by (simp add: active_def)
    qed
  qed
  then show ?thesis by (simp add: first_idx_None)
qed

text \<open>
  Claim C6, as amended. On a table that holds 16 active jobs, \<^verbatim>\<open>addjob\<close> returns 0 for
  every pid and leaves the 16 entries and \<^verbatim>\<open>nextjid\<close> as they are; it prints
  \<^verbatim>\<open>Tried to create too many jobs\<close> when the pid is at least 1, and nothing when the
  pid is less than 1.
\<close>

theorem addjob_full:
  assumes "length (jobs s) = 16" and "length (active (jobs s)) = 16"
  shows "addjob s p st cl =
           (0, if p < 1 then s
               else s\<lparr>out := out s @ ''Tried to create too many jobs'' @ [CHR 0x0A]\<rparr>)"
proof -
  have "first_idx (\<lambda>j. pid j = 0) (jobs s) = None"
    using assms by (intro full_no_empty) simp
  then show ?thesis by (simp add: addjob_def printf_def)
qed

text \<open>The table filled by sixteen background jobs refuses a seventeenth.\<close>

theorem addjob_full_witness:
  "addjob (snd (add_seq (bg_requests 16) (init_shell 0))) 200 BG ''/bin/ls &''
     = (0, (snd (add_seq (bg_requests 16) (init_shell 0)))
             \<lparr>out := ''Tried to create too many jobs'' @ [CHR 0x0A]\<rparr>)"
proof -
  have l: "length (jobs (snd (add_seq (bg_requests 16) (init_shell 0)))) = 16"
    by code_simp
  have a: "length (active (jobs (snd (add_seq (bg_requests 16) (init_shell 0))))) = 16"
    by code_simp
  have o: "out (snd (add_seq (bg_requests 16) (init_shell 0))) = []"
    by code_simp
  show ?thesis
    using addjob_full [OF l a, of 200 BG "''/bin/ls &''"] o by simp
qed

text \<open>Claim C6 as stated fails for the pid 0: on the same full table \<^verbatim>\<open>addjob\<close> returns 0
  and the output stays empty.\<close>

theorem addjob_full_silent_counterexample:
  "length (active (jobs (snd (add_seq (bg_requests 16) (init_shell 0))))) = 16
   \<and> addjob (snd (add_seq (bg_requests 16) (init_shell 0))) 0 BG ''/bin/ls &''
       = (0, snd (add_seq (bg_requests 16) (init_shell 0)))
   \<and> out (snd (add_seq (bg_requests 16) (init_shell 0))) = []"
  by code_simp

subsection \<open>The jids given by consecutive calls of addjob\<close>

lemma addjob_success:
  assumes "fst (addjob s p st cl) = 1"
  shows "added_jid s (snd (addjob s p st cl)) = nextjid s
         \<and> nextjid (snd (addjob s p st cl)) = (if nextjid s + 1 > MAXJOBS then 1 else nextjid s + 1)"
proof (cases "first_idx (\<lambda>j. pid j = 0) (jobs s)")
  case None
  with assms show ?thesis by (simp add: addjob_def split: if_splits)
next
  case (Some i)
  from first_idx_Some [OF Some] have "i < length (jobs s)" by simp
  with assms Some show ?thesis
    by (simp add: addjob_def added_jid_def Let_def printf_def split: if_splits)
qed

lemma add_seq_jids:
  assumes "list_all (\<lambda>(r, j). r = 1) (fst (add_seq rs s))"
    and "nextjid s + int (length rs) \<le> MAXJOBS + 1"
  shows "map snd (fst (add_seq rs s)) = map (\<lambda>k. nextjid s + int k) [0..<length rs]"
  using assms
proof (induction rs arbitrary: s)
  case Nil
  then show ?case by simp
next
  case (Cons r rs)
  obtain p st cl where r: "r = (p, st, cl)" by (cases r)
  define s1 where "s1 = snd (addjob s p st cl)"
  have unfold: "fst (add_seq (r # rs) s)
                  = (fst (addjob s p st cl), added_jid s s1) # fst (add_seq rs s1)"
    by (simp add: r s1_def split: prod.splits)
  from Cons.prems(1) have ok: "fst (addjob s p st cl) = 1"
    and rest: "list_all (\<lambda>(r, j). r = 1) (fst (add_seq rs s1))"
    by (simp_all add: unfold)
  from addjob_success [OF ok] have j: "added_jid s s1 = nextjid s"
    and n: "nextjid s1 = (if nextjid s + 1 > MAXJOBS then 1 else nextjid s + 1)"
    by (simp_all add: s1_def)
  show ?case
  proof (cases rs)
    case Nil
    from unfold j show ?thesis unfolding Nil by simp
  next
    case (Cons r' rs')
    with Cons.prems(2) have "nextjid s + 1 \<le> MAXJOBS" by simp
    with n have n1: "nextjid s1 = nextjid s + 1" by simp
    with Cons.prems(2) have "nextjid s1 + int (length rs) \<le> MAXJOBS + 1" by simp
    from Cons.IH [OF rest this]
    have "map snd (fst (add_seq rs s1)) = map (\<lambda>k. nextjid s + 1 + int k) [0..<length rs]"
      by (simp add: n1)
    also have "\<dots> = map (\<lambda>k. nextjid s + int k) [1..<Suc (length rs)]"
      by (simp add: map_Suc_upt [symmetric] del: upt_Suc)
    finally show ?thesis
      by (simp add: unfold j upt_conv_Cons del: upt_Suc)
  qed
qed

text \<open>
  Claim C3, as amended. In a run of consecutive successful \<^verbatim>\<open>addjob\<close> calls with no
  \<^verbatim>\<open>deletejob\<close> in between, started with the counter \<^verbatim>\<open>nextjid\<close> at \<open>n\<close>, the jids
  given are \<open>n, n+1, ...\<close> and strictly increase, provided \<open>n\<close> plus the number of calls
  is at most \<^verbatim>\<open>MAXJOBS\<close> + 1: no call but the last is made with the counter at
  \<^verbatim>\<open>MAXJOBS\<close> or above, where \<^verbatim>\<open>addjob\<close> resets it to 1.
\<close>

theorem add_seq_increasing:
  assumes "list_all (\<lambda>(r, j). r = 1) (fst (add_seq rs s))"
    and "nextjid s + int (length rs) \<le> MAXJOBS + 1"
  shows "map snd (fst (add_seq rs s)) = map (\<lambda>k. nextjid s + int k) [0..<length rs]
         \<and> sorted_wrt (<) (map snd (fst (add_seq rs s)))"
proof -
  have eq: "map snd (fst (add_seq rs s)) = map (\<lambda>k. nextjid s + int k) [0..<length rs]"
    using assms by (rule add_seq_jids)
  have "sorted_wrt (<) (map (\<lambda>k. nextjid s + int k) [0..<length rs])"
    by (simp add: sorted_wrt_map sorted_wrt_iff_nth_less)
  with eq show ?thesis by simp
qed

text \<open>Thirteen jobs are in the table; the next three get the jids 14, 15 and 16.\<close>

theorem add_seq_increasing_witness:
  "map snd (fst (add_seq (bg_requests 3) (snd (add_seq (bg_requests 13) (init_shell 0))))) = [14, 15, 16]
   \<and> sorted_wrt (<) (map snd (fst (add_seq (bg_requests 3) (snd (add_seq (bg_requests 13) (init_shell 0))))))"
proof -
  have a: "list_all (\<lambda>(r, j). r = 1) (fst (add_seq (bg_requests 3) (snd (add_seq (bg_requests 13) (init_shell 0)))))"
    by code_simp
  have n: "nextjid (snd (add_seq (bg_requests 13) (init_shell 0))) = 14"
    by code_simp
  have l: "length (bg_requests 3) = 3"
    by code_simp
  have b: "nextjid (snd (add_seq (bg_requests 13) (init_shell 0))) + int (length (bg_requests 3)) \<le> MAXJOBS + 1"
    by (simp add: n l MAXJOBS_def)
  have u: "[0..<3] = [0, 1, 2]" by code_simp
  show ?thesis
    using add_seq_increasing [OF a b] by (simp add: n l u)
qed

text \<open>Claim C3 as stated fails in a state reached from the initial one: sixteen jobs
  are added, the jobs with the pids 100 and 101 (jids 1 and 2) are deleted, which sets the
  counter to 17, and two more jobs are added. Both calls succeed; the first gives the
  jid 17 and resets the counter, the second gives the jid 1.\<close>

theorem add_seq_wraps_counterexample:
  "fst (add_seq [(200, BG, ''/bin/ls &''), (201, BG, ''/bin/ls &'')]
         (snd (deletejob (snd (deletejob (snd (add_seq (bg_requests 16) (init_shell 0))) 100)) 101)))
     = [(1, 17), (1, 1)]"
  by code_simp

subsection \<open>deletejob\<close>

lemma wf_jobs_iff: "wf_jobs js = (\<forall>j\<in>set js. 0 \<le> pid j \<and> (pid j = 0 \<longrightarrow> jid j = 0))"
  by (simp add: wf_jobs_def list_all_iff)

lemma set_active: "set (active js) = {j \<in> set js. pid j \<noteq> 0}"
  by (simp add: active_def)


lemma wf_jobs_clear:
  assumes "wf_jobs js"
  shows "wf_jobs (js[i := clearjob (js ! i)])"
proof -
  have sub: "set (js[i := clearjob (js ! i)]) \<subseteq> insert (clearjob (js ! i)) (set js)"
    by (rule set_update_subset_insert)
  have "\<forall>j\<in>set (js[i := clearjob (js ! i)]). 0 \<le> pid j \<and> (pid j = 0 \<longrightarrow> jid j = 0)"
  proof
    fix j assume "j \<in> set (js[i := clearjob (js ! i)])"
    with sub consider "j = clearjob (js ! i)" | "j \<in> set js" by blast
    then show "0 \<le> pid j \<and> (pid j = 0 \<longrightarrow> jid j = 0)"
    proof cases
      case 1
      then show ?thesis by (simp add: clearjob_def)
    next
      case 2
      with assms show ?thesis by (simp add: wf_jobs_iff)
    qed
  qed
  then show ?thesis by (simp add: wf_jobs_iff)
qed




subsection \<open>A stopped child in the SIGCHLD handler\<close>

lemma jobs_printf: "jobs (printf txt s) = jobs s"
  by (simp add: printf_def)



subsection \<open>The argument of bg and fg\<close>











subsection \<open>waitfg\<close>

lemma left_fg_iff: "left_fg js p = (\<forall>j\<in>set js. pid j \<noteq> 0 \<longrightarrow> pid j = p \<longrightarrow> state j \<noteq> FG)"
  by (auto simp: left_fg_def list_ex_iff set_active)

lemma left_fg_absent:
  assumes "wf_jobs js" and "getjobpid js p = None"
  shows "left_fg js p"
proof (cases "p < 1")
  case True
  have "\<forall>j\<in>set js. pid j \<noteq> 0 \<longrightarrow> pid j \<noteq> p"
  proof (intro ballI impI)
    fix j assume "j \<in> set js" "pid j \<noteq> 0"
    with assms(1) have "1 \<le> pid j" by (auto simp: wf_jobs_iff)
    with True show "pid j \<noteq> p" by simp
  qed
  then show ?thesis by (simp add: left_fg_iff)
next
  case False
  with assms(2) have "first_idx (\<lambda>j. pid j = p) js = None" by (simp add: getjobpid_def)
  then have "\<forall>j\<in>set js. pid j \<noteq> p" by (simp add: first_idx_None)
  then show ?thesis by (simp add: left_fg_iff)
qed

lemma left_fg_entry:
  assumes "distinct_pids js" and "i < length js" and "pid (js ! i) = p" and "p \<noteq> 0"
  shows "left_fg js p = (state (js ! i) \<noteq> FG)"
proof -
  have inj: "inj_on pid (set (active js))"
    using assms(1) by (simp add: distinct_pids_def distinct_map)
  have mem: "js ! i \<in> set (active js)"
    using assms(2,3,4) by (simp add: set_active)
  show ?thesis
  proof
    assume "left_fg js p"
    with assms(2,3,4) show "state (js ! i) \<noteq> FG"
      by (simp add: left_fg_iff)
  next
    assume st: "state (js ! i) \<noteq> FG"
    have "\<forall>j\<in>set js. pid j \<noteq> 0 \<longrightarrow> pid j = p \<longrightarrow> state j \<noteq> FG"
    proof (intro ballI impI)
      fix j assume j: "j \<in> set js" "pid j \<noteq> 0" "pid j = p"
      then have "j \<in> set (active js)" by (simp add: set_active)
      with inj mem j(3) assms(3) have "j = js ! i" by (auto dest: inj_onD)
      with st show "state j \<noteq> FG" by simp
    qed
    then show "left_fg js p" by (simp add: left_fg_iff)
  qed
qed

lemma getjobpid_Some:
  assumes "getjobpid js p = Some i"
  shows "1 \<le> p \<and> i < length js \<and> pid (js ! i) = p"
proof -
  from assms have p: "\<not> p < 1" and f: "first_idx (\<lambda>j. pid j = p) js = Some i"
    by (simp_all add: getjobpid_def split: if_splits)
  from first_idx_Some [OF f] p show ?thesis by simp
qed


lemma waitfg_loop_progress:
  assumes reg: "\<forall>k. registry (jobs (after intr k s))"
    and m: "left_fg (jobs (after intr m s)) p"
    and before: "\<forall>k. n \<le> k \<and> k < m \<longrightarrow> \<not> left_fg (jobs (after intr k s)) p"
    and le: "n \<le> m"
  shows "waitfg_loop intr p None n (after intr n s) = Some (m, after intr m s)
         \<and> (\<forall>i. i < nat MAXJOBS \<and> 1 \<le> p
                \<longrightarrow> waitfg_loop intr p (Some i) n (after intr n s) = Some (m, after intr m s))"
  using before le
proof (induction "m - n" arbitrary: n)
  case 0
  then have nm: "n = m" by simp
  let ?x = "after intr m s"
  from reg have r: "registry (jobs ?x)" by simp
  have held: "waitfg_loop intr p (Some i) m ?x = Some (m, ?x)"
    if "i < nat MAXJOBS" "pid (jobs ?x ! i) = p" "1 \<le> p" for i
  proof -
    from r that have "left_fg (jobs ?x) p = (state (jobs ?x ! i) \<noteq> FG)"
      by (intro left_fg_entry) (simp_all add: registry_def)
    with m have "state (jobs ?x ! i) \<noteq> FG" by simp
    with that show ?thesis by (subst waitfg_loop.simps) simp
  qed
  have outer: "waitfg_loop intr p None m ?x = Some (m, ?x)"
  proof (cases "getjobpid (jobs ?x) p")
    case None
    then show ?thesis by (subst waitfg_loop.simps) simp
  next
    case (Some i)
    from getjobpid_Some [OF Some] r have "i < nat MAXJOBS" "pid (jobs ?x ! i) = p" "1 \<le> p"
      by (simp_all add: registry_def)
    from held [OF this] Some show ?thesis by (subst waitfg_loop.simps) simp
  qed
  have "waitfg_loop intr p (Some i) m ?x = Some (m, ?x)" if "i < nat MAXJOBS" "1 \<le> p" for i
  proof (cases "pid (jobs ?x ! i) = p")
    case True
    with that show ?thesis by (simp add: held)
  next
    case False
    with outer show ?thesis by (subst waitfg_loop.simps) simp
  qed
  with outer nm show ?case by simp
next
  case (Suc d)
  then have lt: "n < m" by simp
  let ?x = "after intr n s"
  from reg have r: "registry (jobs ?x)" by simp
  from Suc.prems lt have notyet: "\<not> left_fg (jobs ?x) p" by simp
  have "d = m - Suc n" using Suc.hyps(2) by simp
  moreover have "\<forall>k. Suc n \<le> k \<and> k < m \<longrightarrow> \<not> left_fg (jobs (after intr k s)) p"
    using Suc.prems(1) by simp
  moreover have "Suc n \<le> m" using lt by simp
  ultimately have ih: "\<forall>i. i < nat MAXJOBS \<and> 1 \<le> p
      \<longrightarrow> waitfg_loop intr p (Some i) (Suc n) (after intr (Suc n) s) = Some (m, after intr m s)"
    using Suc.hyps(1) by blast
  have held: "waitfg_loop intr p (Some i) n ?x = Some (m, after intr m s)"
    if "i < nat MAXJOBS" "pid (jobs ?x ! i) = p" "1 \<le> p" for i
  proof -
    from r that have "left_fg (jobs ?x) p = (state (jobs ?x ! i) \<noteq> FG)"
      by (intro left_fg_entry) (simp_all add: registry_def)
    with notyet have "state (jobs ?x ! i) = FG" by simp
    moreover from ih that
    have "waitfg_loop intr p (Some i) (Suc n) (intr n ?x) = Some (m, after intr m s)" by simp
    ultimately show ?thesis using that by (subst waitfg_loop.simps) simp
  qed
  have outer: "waitfg_loop intr p None n ?x = Some (m, after intr m s)"
  proof (cases "getjobpid (jobs ?x) p")
    case None
    with r have "left_fg (jobs ?x) p" by (intro left_fg_absent) (simp_all add: registry_def)
    with notyet show ?thesis by simp
  next
    case (Some i)
    from getjobpid_Some [OF Some] r have "i < nat MAXJOBS" "pid (jobs ?x ! i) = p" "1 \<le> p"
      by (simp_all add: registry_def)
    from held [OF this] Some show ?thesis by (subst waitfg_loop.simps) simp
  qed
  have "waitfg_loop intr p (Some i) n ?x = Some (m, after intr m s)"
    if "i < nat MAXJOBS" "1 \<le> p" for i
  proof (cases "pid (jobs ?x ! i) = p")
    case True
    with that show ?thesis by (simp add: held)
  next
    case False
    with outer show ?thesis by (subst waitfg_loop.simps) simp
  qed
  with outer show ?case by simp
qed

lemma waitfg_loop_sound:
  assumes "waitfg_loop intr p job n x = Some y"
  shows "\<forall>s. x = after intr n s \<and> (\<forall>k. registry (jobs (after intr k s)))
               \<and> (\<forall>i. job = Some i \<longrightarrow> i < nat MAXJOBS \<and> 1 \<le> p)
             \<longrightarrow> left_fg (jobs (after intr (fst y) s)) p"
proof (rule waitfg_loop.raw_induct
    [where P = "\<lambda>intr p job n x y.
       \<forall>s. x = after intr n s \<and> (\<forall>k. registry (jobs (after intr k s)))
               \<and> (\<forall>i. job = Some i \<longrightarrow> i < nat MAXJOBS \<and> 1 \<le> p)
             \<longrightarrow> left_fg (jobs (after intr (fst y) s)) p", OF _ assms], goal_cases)
  case (1 loop intr p job n x y)
  show ?case
  proof (intro allI impI, elim conjE)
    fix s
    assume x: "x = after intr n s" and reg: "\<forall>k. registry (jobs (after intr k s))"
      and job: "\<forall>i. job = Some i \<longrightarrow> i < nat MAXJOBS \<and> 1 \<le> p"
    from reg x have r: "registry (jobs x)" by simp
    show "left_fg (jobs (after intr (fst y) s)) p"
    proof (cases job)
      case None
      show ?thesis
      proof (cases "getjobpid (jobs x) p")
        case gn: None
        with None 1(2) have "y = (n, x)" by simp
        moreover from r gn have "left_fg (jobs x) p"
          by (intro left_fg_absent) (simp_all add: registry_def)
        ultimately show ?thesis using x by simp
      next
        case (Some i)
        with None 1(2) have call: "loop intr p (Some i) n x = Some y" by simp
        from getjobpid_Some [OF Some] r have "i < nat MAXJOBS \<and> 1 \<le> p"
          by (simp add: registry_def)
        with 1(1) [OF call] x reg show ?thesis by simp
      qed
    next
      case (Some i)
      with job have i: "i < nat MAXJOBS" "1 \<le> p" by simp_all
      show ?thesis
      proof (cases "pid (jobs x ! i) = p")
        case False
        with Some 1(2) have call: "loop intr p None n x = Some y" by simp
        with 1(1) [OF call] x reg show ?thesis by simp
      next
        case True
        show ?thesis
        proof (cases "state (jobs x ! i) = FG")
          case ne: False
          with Some True 1(2) have "y = (n, x)" by simp
          moreover from r i True have "left_fg (jobs x) p = (state (jobs x ! i) \<noteq> FG)"
            by (intro left_fg_entry) (simp_all add: registry_def)
          ultimately show ?thesis using ne x by simp
        next
          case fg: True
          with Some True 1(2) have call: "loop intr p (Some i) (Suc n) (intr n x) = Some y"
            by simp
          have "intr n x = after intr (Suc n) s" using x by simp
          with 1(1) [OF call] reg i show ?thesis by simp
        qed
      qed
    qed
  qed
qed

text \<open>
  Claim C9. \<^verbatim>\<open>waitfg(p)\<close> returns exactly when the table holds no job with the pid \<open>p\<close>
  in state \<open>FG\<close>, that is no job with that pid or the job with that pid in another
  state: if the tables seen during the wait ever are such, it returns at the first of
  them, and if they never are, it does not return. The state it returns is the state the
  handlers have made by then; \<^verbatim>\<open>waitfg\<close> itself changes nothing.
\<close>

theorem waitfg_returns:
  assumes "\<forall>n. registry (jobs (after intr n s))"
  shows "waitfg intr p s =
           (if \<exists>n. left_fg (jobs (after intr n s)) p
            then Some (LEAST n. left_fg (jobs (after intr n s)) p,
                       after intr (LEAST n. left_fg (jobs (after intr n s)) p) s)
            else None)"
proof (cases "\<exists>n. left_fg (jobs (after intr n s)) p")
  case True
  define m where "m = (LEAST n. left_fg (jobs (after intr n s)) p)"
  from True have at: "left_fg (jobs (after intr m s)) p"
    unfolding m_def by (elim exE) (rule LeastI)
  have "\<forall>k. 0 \<le> k \<and> k < m \<longrightarrow> \<not> left_fg (jobs (after intr k s)) p"
    unfolding m_def using not_less_Least by blast
  from waitfg_loop_progress [OF assms at this]
  have "waitfg_loop intr p None 0 (after intr 0 s) = Some (m, after intr m s)" by simp
  with True show ?thesis by (simp add: waitfg_def m_def)
next
  case False
  have "waitfg intr p s = None"
  proof (cases "waitfg intr p s")
    case None
    then show ?thesis .
  next
    case (Some y)
    then have "waitfg_loop intr p None 0 s = Some y" by (simp add: waitfg_def)
    from waitfg_loop_sound [OF this] assms
    have "left_fg (jobs (after intr (fst y) s)) p" by simp
    with False show ?thesis by blast
  qed
  with False show ?thesis by simp
qed


text \<open>The foreground job 100 exits during sleep number 2 (the third): \<^verbatim>\<open>waitfg\<close> returns
  after three sleeps, in the state the handler left.\<close>

theorem waitfg_returns_witness:
  "waitfg (exit_during 2 100) 100 (snd (addjob (init_shell 0) 100 FG ''/bin/sleep 2\<newline>'')) = Some (3, snd (deletejob (snd (addjob (init_shell 0) 100 FG ''/bin/sleep 2\<newline>'')) 100))"
proof -
  let ?s = "(snd (addjob (init_shell 0) 100 FG ''/bin/sleep 2\<newline>''))"
  let ?t = "snd (deletejob (snd (addjob (init_shell 0) 100 FG ''/bin/sleep 2\<newline>'')) 100)"
  have e: "exit_during 2 100 2 ?s = ?t" by code_simp
  have o: "exit_during 2 100 n x = x" if "n \<noteq> 2" for n x
    using that by (simp add: exit_during_def)
  have traj: "after (exit_during 2 100) n ?s = (if n < 3 then ?s else ?t)" for n
  proof (induction n)
    case 0
    show ?case by simp
  next
    case (Suc n)
    have step: "after (exit_during 2 100) (Suc n) ?s
                  = exit_during 2 100 n (if n < 3 then ?s else ?t)"
      by (simp only: after.simps Suc)
    consider "n < 2" | "n = 2" | "3 \<le> n" by linarith
    then show ?case
    proof cases
      case 1
      then show ?thesis unfolding step by (simp add: o)
    next
      case 2
      then show ?thesis unfolding step by (simp add: e)
    next
      case 3
      then show ?thesis unfolding step by (simp add: o)
    qed
  qed
  have rs: "registry (jobs ?s)" by code_simp
  have rt: "registry (jobs ?t)" by code_simp
  have ls: "\<not> left_fg (jobs ?s) 100" by code_simp
  have lt: "left_fg (jobs ?t) 100" by code_simp
  have reg: "\<forall>n. registry (jobs (after (exit_during 2 100) n ?s))"
    using rs rt by (simp add: traj)
  have l3: "left_fg (jobs (after (exit_during 2 100) 3 ?s)) 100"
    using lt by (simp add: traj)
  have least: "(LEAST n. left_fg (jobs (after (exit_during 2 100) n ?s)) 100) = 3"
  proof (rule Least_equality)
    show "left_fg (jobs (after (exit_during 2 100) 3 ?s)) 100" by (rule l3)
  next
    fix y assume "left_fg (jobs (after (exit_during 2 100) y ?s)) 100"
    with ls show "3 \<le> y" by (cases "y < 3") (simp_all add: traj)
  qed
  have ex: "\<exists>n. left_fg (jobs (after (exit_during 2 100) n ?s)) 100"
    using l3 by blast
  from waitfg_returns [OF reg, of 100] ex
  have "waitfg (exit_during 2 100) 100 ?s
          = Some (LEAST n. left_fg (jobs (after (exit_during 2 100) n ?s)) 100,
                  after (exit_during 2 100)
                    (LEAST n. left_fg (jobs (after (exit_during 2 100) n ?s)) 100) ?s)"
    by (simp only: if_True)
  moreover have "after (exit_during 2 100) 3 ?s = ?t"
    by (simp add: traj)
  ultimately show ?thesis by (simp only: least)
qed

subsection \<open>At most one foreground job\<close>

lemma waitfg_loop_state:
  assumes "waitfg_loop intr p job n x = Some y"
  shows "\<forall>s. x = after intr n s \<longrightarrow> snd y = after intr (fst y) s"
proof (rule waitfg_loop.raw_induct
    [where P = "\<lambda>intr p job n x y. \<forall>s. x = after intr n s \<longrightarrow> snd y = after intr (fst y) s",
     OF _ assms], goal_cases)
  case (1 loop intr p job n x y)
  show ?case
  proof (intro allI impI)
    fix s assume x: "x = after intr n s"
    then have x': "intr n x = after intr (Suc n) s" by simp
    show "snd y = after intr (fst y) s"
    proof (cases job)
      case None
      show ?thesis
      proof (cases "getjobpid (jobs x) p")
        case gn: None
        with None 1(2) have "y = (n, x)" by simp
        with x show ?thesis by simp
      next
        case (Some i)
        with None 1(2) have "loop intr p (Some i) n x = Some y" by simp
        from 1(1) [OF this] x show ?thesis by simp
      qed
    next
      case (Some i)
      show ?thesis
      proof (cases "pid (jobs x ! i) = p")
        case False
        with Some 1(2) have "loop intr p None n x = Some y" by simp
        from 1(1) [OF this] x show ?thesis by simp
      next
        case True
        show ?thesis
        proof (cases "state (jobs x ! i) = FG")
          case ne: False
          with Some True 1(2) have "y = (n, x)" by simp
          with x show ?thesis by simp
        next
          case fg: True
          with Some True 1(2) have "loop intr p (Some i) (Suc n) (intr n x) = Some y"
            by simp
          from 1(1) [OF this] x' show ?thesis by simp
        qed
      qed
    qed
  qed
qed

lemma active_split:
  assumes "i < length js"
  shows "active (js[i := e]) = active (take i js) @ active [e] @ active (drop (Suc i) js)"
    and "active js = active (take i js) @ active [js ! i] @ active (drop (Suc i) js)"
proof -
  have "js[i := e] = take i js @ e # drop (Suc i) js"
    using assms by (rule upd_conv_take_nth_drop)
  then show "active (js[i := e]) = active (take i js) @ active [e] @ active (drop (Suc i) js)"
    by (simp add: active_def)
  have "js = take i js @ js ! i # drop (Suc i) js"
    using assms by (simp add: id_take_nth_drop [symmetric])
  then have "active js = active (take i js @ js ! i # drop (Suc i) js)" by simp
  then show "active js = active (take i js) @ active [js ! i] @ active (drop (Suc i) js)"
    by (simp add: active_def)
qed

lemma distinct_pids_same_pid:
  assumes "distinct_pids js" and "pid e = pid (js ! i) \<or> pid e = 0"
  shows "distinct_pids (js[i := e])"
proof (cases "i < length js")
  case False
  then have "js[i := e] = js" by (simp add: list_update_beyond)
  with assms(1) show ?thesis by simp
next
  case True
  from assms(1) active_split(2) [OF True]
  have d: "distinct (map pid (active (take i js) @ active [js ! i] @ active (drop (Suc i) js)))"
    by (simp add: distinct_pids_def)
  from assms(2) have "distinct (map pid (active (take i js) @ active [e] @ active (drop (Suc i) js)))"
  proof
    assume "pid e = pid (js ! i)"
    then have "map pid (active [e]) = map pid (active [js ! i])" by (simp add: active_def)
    then have "map pid (active (take i js) @ active [e] @ active (drop (Suc i) js))
                 = map pid (active (take i js) @ active [js ! i] @ active (drop (Suc i) js))"
      by (simp only: map_append)
    with d show ?thesis by (simp only:)
  next
    assume "pid e = 0"
    then have "active [e] = []" by (simp add: active_def)
    with d show ?thesis by auto
  qed
  with active_split(1) [OF True] show ?thesis by (simp add: distinct_pids_def)
qed

lemma distinct_pids_fresh:
  assumes "distinct_pids js" and "pid (js ! i) = 0" and "pid e \<notin> set (map pid js)"
  shows "distinct_pids (js[i := e])"
proof (cases "i < length js")
  case False
  then have "js[i := e] = js" by (simp add: list_update_beyond)
  with assms(1) show ?thesis by simp
next
  case True
  from assms(2) have e0: "active [js ! i] = []" by (simp add: active_def)
  from assms(1) active_split(2) [OF True] e0
  have d: "distinct (map pid (active (take i js) @ active (drop (Suc i) js)))"
    by (simp add: distinct_pids_def)
  have "set (take i js) \<subseteq> set js" "set (drop (Suc i) js) \<subseteq> set js"
    by (rule set_take_subset, rule set_drop_subset)
  with assms(3) have "pid e \<notin> pid ` set (active (take i js))"
    "pid e \<notin> pid ` set (active (drop (Suc i) js))"
    by (auto simp: set_active)
  with d have "distinct (map pid (active (take i js) @ active [e] @ active (drop (Suc i) js)))"
    by (simp add: active_def)
  with active_split(1) [OF True] show ?thesis by (simp add: distinct_pids_def)
qed

lemma wf_jobs_update:
  assumes "wf_jobs js" and "0 \<le> pid e \<and> (pid e = 0 \<longrightarrow> jid e = 0)"
  shows "wf_jobs (js[i := e])"
proof -
  have sub: "set (js[i := e]) \<subseteq> insert e (set js)"
    by (rule set_update_subset_insert)
  have "\<forall>j\<in>set (js[i := e]). 0 \<le> pid j \<and> (pid j = 0 \<longrightarrow> jid j = 0)"
  proof
    fix j assume "j \<in> set (js[i := e])"
    with sub consider "j = e" | "j \<in> set js" by blast
    then show "0 \<le> pid j \<and> (pid j = 0 \<longrightarrow> jid j = 0)"
    proof cases
      case 1
      with assms(2) show ?thesis by simp
    next
      case 2
      with assms(1) show ?thesis by (simp add: wf_jobs_iff)
    qed
  qed
  then show ?thesis by (simp add: wf_jobs_iff)
qed

lemma fg_in_update:
  assumes "fg_in A js" and "pid e \<noteq> 0 \<and> state e = FG \<longrightarrow> pid e \<in> A"
  shows "fg_in A (js[i := e])"
proof -
  have sub: "set (js[i := e]) \<subseteq> insert e (set js)"
    by (rule set_update_subset_insert)
  have "\<forall>j\<in>set (js[i := e]). pid j \<noteq> 0 \<and> state j = FG \<longrightarrow> pid j \<in> A"
  proof
    fix j assume "j \<in> set (js[i := e])"
    with sub consider "j = e" | "j \<in> set js" by blast
    then show "pid j \<noteq> 0 \<and> state j = FG \<longrightarrow> pid j \<in> A"
    proof cases
      case 1
      with assms(2) show ?thesis by simp
    next
      case 2
      with assms(1) show ?thesis by (simp add: fg_in_def)
    qed
  qed
  then show ?thesis by (simp add: fg_in_def)
qed

lemma fg_in_mono: "fg_in A js \<Longrightarrow> A \<subseteq> B \<Longrightarrow> fg_in B js"
  by (auto simp: fg_in_def)


lemma addjob_jobs:
  "jobs (snd (addjob s p st cl)) =
     (if p < 1 then jobs s
      else case first_idx (\<lambda>j. pid j = 0) (jobs s) of
             None \<Rightarrow> jobs s
           | Some i \<Rightarrow> (jobs s)[i := (jobs s ! i)\<lparr>pid := p, state := st, jid := nextjid s, cmdline := cl\<rparr>])"
  by (simp add: addjob_def Let_def jobs_printf split: option.splits)

lemma deletejob_jobs:
  "jobs (snd (deletejob s p)) =
     (if p < 1 then jobs s
      else case first_idx (\<lambda>j. pid j = p) (jobs s) of
             None \<Rightarrow> jobs s
           | Some i \<Rightarrow> (jobs s)[i := clearjob (jobs s ! i)])"
  by (simp add: deletejob_def Let_def split: option.splits)

lemma addjob_keeps:
  assumes reg: "registry (jobs s)" and fg: "fg_in A (jobs s)"
    and fresh: "p \<notin> set (map pid (jobs s))" and st: "st = FG \<longrightarrow> p \<in> A"
  shows "registry (jobs (snd (addjob s p st cl))) \<and> fg_in A (jobs (snd (addjob s p st cl)))"
proof (cases "p < 1")
  case True
  with reg fg show ?thesis by (simp add: addjob_jobs)
next
  case False
  show ?thesis
  proof (cases "first_idx (\<lambda>j. pid j = 0) (jobs s)")
    case None
    with False reg fg show ?thesis by (simp add: addjob_jobs)
  next
    case (Some i)
    let ?e = "(jobs s ! i)\<lparr>pid := p, state := st, jid := nextjid s, cmdline := cl\<rparr>"
    from first_idx_Some [OF Some] have i: "i < length (jobs s)" "pid (jobs s ! i) = 0"
      by simp_all
    have "wf_jobs ((jobs s)[i := ?e])"
      using reg False by (intro wf_jobs_update) (simp_all add: registry_def)
    moreover have "distinct_pids ((jobs s)[i := ?e])"
      using reg i(2) fresh by (intro distinct_pids_fresh) (simp_all add: registry_def)
    moreover have "fg_in A ((jobs s)[i := ?e])"
      using fg st by (intro fg_in_update) simp_all
    ultimately show ?thesis
      using False Some reg by (simp add: addjob_jobs registry_def)
  qed
qed

lemma deletejob_keeps:
  assumes reg: "registry (jobs s)" and fg: "fg_in A (jobs s)"
  shows "registry (jobs (snd (deletejob s p))) \<and> fg_in A (jobs (snd (deletejob s p)))"
proof (cases "p < 1")
  case True
  with reg fg show ?thesis by (simp add: deletejob_jobs)
next
  case False
  show ?thesis
  proof (cases "first_idx (\<lambda>j. pid j = p) (jobs s)")
    case None
    with False reg fg show ?thesis by (simp add: deletejob_jobs)
  next
    case (Some i)
    have "wf_jobs ((jobs s)[i := clearjob (jobs s ! i)])"
      using reg by (intro wf_jobs_clear) (simp add: registry_def)
    moreover have "distinct_pids ((jobs s)[i := clearjob (jobs s ! i)])"
      using reg by (intro distinct_pids_same_pid) (simp_all add: registry_def clearjob_def)
    moreover have "fg_in A ((jobs s)[i := clearjob (jobs s ! i)])"
      using fg by (intro fg_in_update) (simp_all add: clearjob_def)
    ultimately show ?thesis
      using False Some reg by (simp add: deletejob_jobs registry_def)
  qed
qed

lemma stop_keeps:
  assumes reg: "registry js" and fg: "fg_in A js" and i: "i < length js"
  shows "registry (js[i := (js ! i)\<lparr>state := ST\<rparr>]) \<and> fg_in A (js[i := (js ! i)\<lparr>state := ST\<rparr>])"
proof -
  from i have "js ! i \<in> set js" by simp
  with reg have "0 \<le> pid (js ! i) \<and> (pid (js ! i) = 0 \<longrightarrow> jid (js ! i) = 0)"
    by (simp add: registry_def wf_jobs_iff)
  with reg have "wf_jobs (js[i := (js ! i)\<lparr>state := ST\<rparr>])"
    by (intro wf_jobs_update) (simp_all add: registry_def)
  moreover have "distinct_pids (js[i := (js ! i)\<lparr>state := ST\<rparr>])"
    using reg by (intro distinct_pids_same_pid) (simp_all add: registry_def)
  moreover have "fg_in A (js[i := (js ! i)\<lparr>state := ST\<rparr>])"
    using fg by (intro fg_in_update) (simp_all add: ST_def FG_def)
  ultimately show ?thesis using reg by (simp add: registry_def)
qed

lemma sigchld_handler_keeps:
  assumes "sigchld_handler ws s = Inr s'" and "registry (jobs s)" and "fg_in A (jobs s)"
  shows "registry (jobs s') \<and> fg_in A (jobs s')"
  using assms
proof (induction ws arbitrary: s)
  case Nil
  then show ?case by simp
next
  case (Cons r ws)
  obtain wp w where r: "r = (wp, w)" by (cases r)
  show ?case
  proof (cases "wp < 1")
    case True
    with Cons.prems r show ?thesis by simp
  next
    case False
    show ?thesis
    proof (cases w)
      case (Stopped n)
      show ?thesis
      proof (cases "getjobpid (jobs s) wp")
        case None
        with Cons.prems(1) r False Stopped show ?thesis
          by (simp add: jobs_printf Let_def)
      next
        case (Some i)
        let ?s1 = "printf (''Job ['' @ dec (pid2jid s wp) @ ''] ('' @ dec wp
                            @ '') stopped by signal '' @ dec n @ [CHR 0x0A]) s"
        let ?s2 = "?s1\<lparr>jobs := (jobs s)[i := (jobs s ! i)\<lparr>state := ST\<rparr>]\<rparr>"
        from Cons.prems(1) r False Stopped Some
        have call: "sigchld_handler ws ?s2 = Inr s'"
          by (simp add: jobs_printf Let_def)
        from getjobpid_Some [OF Some] have "i < length (jobs s)" by simp
        from stop_keeps [OF Cons.prems(2,3) this]
        have "registry (jobs ?s2)" "fg_in A (jobs ?s2)" by simp_all
        from Cons.IH [OF call this] show ?thesis .
      qed
    next
      case (Signaled n)
      let ?s1 = "printf (''Job ['' @ dec (pid2jid s wp) @ ''] ('' @ dec wp
                          @ '') terminated by signal '' @ dec n @ [CHR 0x0A]) s"
      from Cons.prems(1) r False Signaled
      have call: "sigchld_handler ws (snd (deletejob ?s1 wp)) = Inr s'" by simp
      from Cons.prems(2,3) have "registry (jobs ?s1)" "fg_in A (jobs ?s1)"
        by (simp_all add: jobs_printf)
      from deletejob_keeps [OF this, of wp]
      have "registry (jobs (snd (deletejob ?s1 wp)))" "fg_in A (jobs (snd (deletejob ?s1 wp)))"
        by simp_all
      from Cons.IH [OF call this] show ?thesis .
    next
      case (Exited n)
      from Cons.prems(1) r False Exited
      have call: "sigchld_handler ws (snd (deletejob s wp)) = Inr s'" by simp
      from deletejob_keeps [OF Cons.prems(2,3), of wp]
      have "registry (jobs (snd (deletejob s wp)))" "fg_in A (jobs (snd (deletejob s wp)))"
        by simp_all
      from Cons.IH [OF call this] show ?thesis .
    next
      case OtherStatus
      with Cons.prems(1) r False have call: "sigchld_handler ws s = Inr s'" by simp
      from Cons.IH [OF call Cons.prems(2,3)] show ?thesis .
    qed
  qed
qed

lemma listjobs_loop_jobs: "jobs (listjobs_loop i js s) = jobs s"
  by (induction js arbitrary: i s) (simp_all add: jobs_printf)

lemma do_bgfg_jobs: "jobs (do_bgfg strcmp1 argv s) = jobs s"
  by (cases "(strcmp1, argv, s)" rule: do_bgfg.cases)
     (simp_all add: jobs_printf split: option.splits)

lemma builtin_cmd_jobs:
  assumes "builtin_cmd strcmp1 argv s = Inr (r, s1)"
  shows "jobs s1 = jobs s"
  using assms
  by (auto simp: builtin_cmd_def listjobs_def listjobs_loop_jobs do_bgfg_jobs split: if_splits)


lemma eval_keeps:
  assumes ev: "eval strcmp1 cl forked s = Inr (s', w)"
    and reg: "registry (jobs s)" and fg: "fg_in {} (jobs s)"
    and fresh: "forked \<notin> set (map pid (jobs s))"
  shows "registry (jobs s')
         \<and> (case w of None \<Rightarrow> fg_in {} (jobs s') | Some p \<Rightarrow> 1 \<le> p \<and> fg_in {p} (jobs s'))"
proof -
  from ev obtain argv bg where pl: "parseline cl = Inr (argv, bg)"
    by (auto simp: eval_def split: sum.splits)
  show ?thesis
  proof (cases "argv = []")
    case True
    with ev pl have "s' = s" "w = None" by (simp_all add: eval_def)
    with reg fg show ?thesis by simp
  next
    case False
    with ev pl obtain r s1 where bc: "builtin_cmd strcmp1 argv s = Inr (r, s1)"
      by (auto simp: eval_def split: sum.splits)
    from builtin_cmd_jobs [OF bc] have j1: "jobs s1 = jobs s" .
    show ?thesis
    proof (cases "r \<noteq> 0")
      case True
      with ev pl False bc have "s' = s1" "w = None" by (simp_all add: eval_def)
      with reg fg j1 show ?thesis by simp
    next
      case r0: False
      with ev pl False bc have pos: "\<not> forked < 0" "forked \<noteq> 0"
        by (auto simp: eval_def split: if_splits)
      show ?thesis
      proof (cases bg)
        case True
        with ev pl False bc r0 pos
        have "jobs s' = jobs (snd (addjob s1 forked BG cl))" "w = None"
          by (auto simp: eval_def Let_def jobs_printf)
        moreover have "registry (jobs (snd (addjob s1 forked BG cl)))
                       \<and> fg_in {} (jobs (snd (addjob s1 forked BG cl)))"
          using reg fg fresh j1 by (intro addjob_keeps) (simp_all add: BG_def FG_def)
        ultimately show ?thesis by simp
      next
        case nbg: False
        with ev pl False bc r0 pos
        have "s' = snd (addjob s1 forked FG cl)" "w = Some forked"
          by (simp_all add: eval_def Let_def)
        moreover have "registry (jobs (snd (addjob s1 forked FG cl)))
                       \<and> fg_in {forked} (jobs (snd (addjob s1 forked FG cl)))"
          using reg fresh j1 fg_in_mono [OF fg, of "{forked}"]
          by (intro addjob_keeps) simp_all
        ultimately show ?thesis using pos by simp
      qed
    qed
  qed
qed

lemma after_nothing: "after (\<lambda>n s. s) n s = s"
  by (induction n) simp_all

lemma fg_in_left:
  assumes "fg_in {p} js" and "left_fg js p"
  shows "fg_in {} js"
  using assms by (auto simp: fg_in_def left_fg_iff)

lemma step_keeps:
  assumes "step strcmp1 e y = Some y'" and "shell_inv y"
  shows "shell_inv y'"
proof (cases e)
  case (Line cl forked)
  with assms(1) obtain s w where w: "waiting y = None" "forked \<notin> set (map pid (jobs (sh y)))"
    and ev: "eval strcmp1 cl forked (sh y) = Inr (s, w)" and y': "y' = \<lparr>sh = s, waiting = w\<rparr>"
    by (auto split: if_splits sum.splits)
  from assms(2) w(1) have "registry (jobs (sh y))" "fg_in {} (jobs (sh y))"
    by (simp_all add: shell_inv_def)
  from eval_keeps [OF ev this w(2)] y' show ?thesis
    by (cases w) (simp_all add: shell_inv_def)
next
  case Return
  with assms(1) obtain p n s where p: "waiting y = Some p"
    and wt: "waitfg (\<lambda>n s. s) p (sh y) = Some (n, s)" and y': "y' = \<lparr>sh = s, waiting = None\<rparr>"
    by (auto split: option.splits)
  from assms(2) p have reg: "registry (jobs (sh y))" and fg: "fg_in {p} (jobs (sh y))"
    by (simp_all add: shell_inv_def)
  from wt have loop: "waitfg_loop (\<lambda>n s. s) p None 0 (sh y) = Some (n, s)"
    by (simp add: waitfg_def)
  from waitfg_loop_state [OF loop] have "s = sh y" by (simp add: after_nothing)
  moreover from waitfg_loop_sound [OF loop] reg have "left_fg (jobs (sh y)) p"
    by (simp add: after_nothing)
  ultimately show ?thesis using y' reg fg by (simp add: shell_inv_def fg_in_left)
next
  case (Chld ws)
  with assms(1) obtain s where h: "sigchld_handler ws (sh y) = Inr s" and y': "y' = y\<lparr>sh := s\<rparr>"
    by (auto split: sum.splits)
  show ?thesis
  proof (cases "waiting y")
    case None
    with assms(2) have "registry (jobs (sh y))" "fg_in {} (jobs (sh y))"
      by (simp_all add: shell_inv_def)
    from sigchld_handler_keeps [OF h this] None y' show ?thesis by (simp add: shell_inv_def)
  next
    case (Some p)
    with assms(2) have p: "1 \<le> p" and "registry (jobs (sh y))" "fg_in {p} (jobs (sh y))"
      by (simp_all add: shell_inv_def)
    from sigchld_handler_keeps [OF h this(2,3)] Some p y' show ?thesis by (simp add: shell_inv_def)
  qed
next
  case Intr
  with assms(1) have "y' = y\<lparr>sh := sigint_handler (sh y)\<rparr>" by simp
  moreover have "jobs (sigint_handler (sh y)) = jobs (sh y)"
    by (simp add: sigint_handler_def kill_def)
  ultimately show ?thesis using assms(2) by (simp add: shell_inv_def split: option.splits)
next
  case Tstp
  with assms(1) have "y' = y\<lparr>sh := sigtstp_handler (sh y)\<rparr>" by simp
  moreover have "jobs (sigtstp_handler (sh y)) = jobs (sh y)"
    by (simp add: sigtstp_handler_def kill_def)
  ultimately show ?thesis using assms(2) by (simp add: shell_inv_def split: option.splits)
qed

lemma run_keeps:
  assumes "run strcmp1 es y = Some y'" and "shell_inv y"
  shows "shell_inv y'"
  using assms
proof (induction es arbitrary: y)
  case Nil
  then show ?case by simp
next
  case (Cons e es)
  from Cons.prems(1) obtain y1 where s: "step strcmp1 e y = Some y1"
    and r: "run strcmp1 es y1 = Some y'"
    by (auto split: option.splits)
  from step_keeps [OF s Cons.prems(2)] have "shell_inv y1" .
  from Cons.IH [OF r this] show ?case .
qed

lemma shell_inv_init: "shell_inv (init_sys v)"
proof -
  have j: "jobs (init_shell v) = replicate 16 \<lparr>pid = 0, jid = 0, state = UNDEF, cmdline = []\<rparr>"
    by (simp add: init_shell_def initjobs_def clearjob_def MAXJOBS_def)
  have "active (jobs (init_shell v)) = []"
    unfolding j active_def by simp
  then have "distinct_pids (jobs (init_shell v))" by (simp add: distinct_pids_def)
  moreover have "wf_jobs (jobs (init_shell v))"
    unfolding j by (simp add: wf_jobs_iff)
  moreover have "length (jobs (init_shell v)) = nat MAXJOBS"
    unfolding j by (simp add: MAXJOBS_def)
  moreover have "fg_in {} (jobs (init_shell v))"
    unfolding j by (simp add: fg_in_def)
  ultimately show ?thesis by (simp add: shell_inv_def init_sys_def registry_def)
qed

lemma distinct_all_equal:
  assumes "distinct xs" and "\<forall>x\<in>set xs. x = p"
  shows "length xs \<le> 1"
proof (cases xs)
  case Nil
  then show ?thesis by simp
next
  case (Cons a as)
  show ?thesis
  proof (cases as)
    case Nil
    with Cons show ?thesis by simp
  next
    case (Cons b bs)
    with \<open>xs = a # as\<close> assms(2) have "a = p" "b = p" by simp_all
    with \<open>xs = a # as\<close> Cons assms(1) show ?thesis by simp
  qed
qed

lemma shell_inv_one_fg:
  assumes "shell_inv y"
  shows "length (fg_jobs (jobs (sh y))) \<le> 1"
proof -
  let ?js = "jobs (sh y)"
  from assms have "distinct (map pid (active ?js))"
    by (simp add: shell_inv_def registry_def distinct_pids_def)
  then have d: "distinct (map pid (fg_jobs ?js))"
    unfolding fg_jobs_def by (rule distinct_map_filter)
  from assms obtain A p where A: "fg_in A ?js" "A \<subseteq> {p}"
    by (cases "waiting y") (auto simp: shell_inv_def)
  have "\<forall>x\<in>set (map pid (fg_jobs ?js)). x = p"
  proof
    fix x assume "x \<in> set (map pid (fg_jobs ?js))"
    then obtain j where "j \<in> set ?js" "pid j \<noteq> 0" "state j = FG" "x = pid j"
      by (auto simp: fg_jobs_def set_active)
    with A show "x = p" by (auto simp: fg_in_def)
  qed
  from distinct_all_equal [OF d this] show ?thesis by simp
qed

text \<open>
  Claim C7. In every state that the shell reaches from its initial state, by command
  lines evaluated (jobs added), returns of \<^verbatim>\<open>waitfg\<close> and runs of the signal handlers
  (jobs stopped or deleted), at most one active job is in state \<open>FG\<close>.
\<close>

theorem one_foreground_job:
  assumes "run strcmp1 es (init_sys v) = Some y"
  shows "length (fg_jobs (jobs (sh y))) \<le> 1"
proof -
  from run_keeps [OF assms shell_inv_init] have "shell_inv y" .
  then show ?thesis by (rule shell_inv_one_fg)
qed

text \<open>A background job, a foreground job that is stopped, the return of \<^verbatim>\<open>waitfg\<close>,
  a second foreground job and a keyboard interrupt.\<close>

theorem one_foreground_job_witness:
  "run percent [Line ''/bin/sleep 9 &\<newline>'' 100, Line ''/bin/sleep 5\<newline>'' 101,
      Chld [(101, Stopped 20)], Return, Line ''/bin/ls\<newline>'' 102, Intr] (init_sys 0) \<noteq> None
   \<and> length (fg_jobs (jobs (sh (the (run percent [Line ''/bin/sleep 9 &\<newline>'' 100, Line ''/bin/sleep 5\<newline>'' 101,
      Chld [(101, Stopped 20)], Return, Line ''/bin/ls\<newline>'' 102, Intr] (init_sys 0)))))) \<le> 1"
proof -
  have ne: "run percent [Line ''/bin/sleep 9 &\<newline>'' 100, Line ''/bin/sleep 5\<newline>'' 101,
      Chld [(101, Stopped 20)], Return, Line ''/bin/ls\<newline>'' 102, Intr] (init_sys 0) \<noteq> None"
    by code_simp
  then obtain y where y: "run percent [Line ''/bin/sleep 9 &\<newline>'' 100, Line ''/bin/sleep 5\<newline>'' 101,
      Chld [(101, Stopped 20)], Return, Line ''/bin/ls\<newline>'' 102, Intr] (init_sys 0) = Some y"
    by blast
  from one_foreground_job [OF y] have "length (fg_jobs (jobs (sh y))) \<le> 1" .
  with ne y show ?thesis by simp
qed

end
